theory Spec2Isabelle
  imports Main "HOL-Library.Char_ord" "HOL-Library.List_Lexorder" "HOL-Library.AList"
    "HOL-Library.Sublist"
begin

text \<open>
  A model of the local store of remotestorage.js, \<open>src/indexeddb.js\<close>, and of its
  transport, \<open>src/lib/getputdelete.js\<close>: the \<open>nodes\<close> and \<open>changes\<close> object stores, the
  directory nodes kept by \<open>addToParent\<close> and \<open>removeFromParent\<close>, the operations
  \<open>put\<close>, \<open>delete\<close>, \<open>setRevision\<close>, \<open>_recordChange\<close>, \<open>changesBelow\<close> and
  \<open>setConflict\<close>, and the calls \<open>set\<close>, \<open>put\<close> and \<open>doCall\<close> of the transport.
  An operation is a function from the state before it to what its caller sees and the
  state after all of its handlers have run.
\<close>

section \<open>JavaScript values and strings\<close>

text \<open>
  Strings are lists of code units; the model covers the code units 0..255, so a
  \<open>string\<close> is a JavaScript string over that range. Strings are compared code unit by
  code unit (the order of IndexedDB keys), which is the lexicographic order of
  \<open>List_Lexorder\<close> over the order of \<open>Char_ord\<close>. The line terminators in that range
  are the line feed and the carriage return.

  A value is a piece of data, of one of the kinds that the sources distinguish with
  \<open>typeof\<close>, \<open>instanceof\<close> and \<open>==\<close>: a primitive, an ArrayBuffer, an array or a plain
  object. These are values that an object store can hold; a function is not one of
  them. \<open>Number n\<close> is the number with the integer value \<open>n\<close>. An object is the list
  of its own enumerable properties in the order in which \<open>for (key in obj)\<close> visits
  them: the names that are array indices first, in ascending order, then the other
  names in the order of their creation.
\<close>

text \<open>
  The exceptions: a TypeError of the language, and the strings that the sources throw
  (\<open>InvalidResolution t\<close> is the string \<open>Invalid resolution: \<close> followed by \<open>t\<close>).
\<close>

datatype exn =
    TypeError
  | BadPutFolders
  | BadDeleteFolders
  | InvalidResolution string

datatype jsval =
    Undefined
  | Null
  | Boolean bool
  | Number int
  | Str string
  | ArrayBuffer "nat list"
  | Array "jsval list"
  | Obj "(string \<times> jsval) list"

fun typeof :: "jsval \<Rightarrow> string" where
  "typeof Undefined = ''undefined''"
| "typeof Null = ''object''"
| "typeof (Boolean b) = ''boolean''"
| "typeof (Number n) = ''number''"
| "typeof (Str s) = ''string''"
| "typeof (ArrayBuffer bs) = ''object''"
| "typeof (Array xs) = ''object''"
| "typeof (Obj ps) = ''object''"

fun instanceofArrayBuffer :: "jsval \<Rightarrow> bool" where
  "instanceofArrayBuffer (ArrayBuffer bs) = True"
| "instanceofArrayBuffer v = False"

subsection \<open>Assigning a property\<close>

text \<open>
  \<open>obj[key] = value\<close> on a plain object. A name is an array index when it is the decimal
  numeral, without a leading zero, of a number below \<open>2^32 - 1\<close>. A present property keeps
  its place; a new one is placed among the array indices by its number, or after all
  the properties when its name is no array index. Assigning to the absent name
  \<open>__proto__\<close> calls the setter inherited from \<open>Object.prototype\<close> and creates no
  property.
\<close>

definition isDigit :: "char \<Rightarrow> bool" where
  "isDigit c \<longleftrightarrow> c \<in> set ''0123456789''"

definition numeralValue :: "string \<Rightarrow> nat" where
  "numeralValue s = foldl (\<lambda>a c. 10 * a + (of_char c - 48)) 0 s"

definition arrayIndex :: "string \<Rightarrow> nat option" where
  "arrayIndex s =
     (if s \<noteq> [] \<and> list_all isDigit s \<and> (length s = 1 \<or> hd s \<noteq> CHR ''0'')
         \<and> numeralValue s < 4294967295
      then Some (numeralValue s) else None)"

fun insertIndex :: "nat \<Rightarrow> string \<times> 'v \<Rightarrow> (string \<times> 'v) list \<Rightarrow> (string \<times> 'v) list" where
  "insertIndex i kv [] = [kv]"
| "insertIndex i kv (q # qs) =
     (case arrayIndex (fst q) of
        Some j \<Rightarrow> if j < i then q # insertIndex i kv qs else kv # q # qs
      | None \<Rightarrow> kv # q # qs)"

definition assign :: "string \<Rightarrow> 'v \<Rightarrow> (string \<times> 'v) list \<Rightarrow> (string \<times> 'v) list" where
  "assign k v ps =
     (if k \<in> set (map fst ps) then AList.update k v ps
      else if k = ''__proto__'' then ps
      else (case arrayIndex k of
              Some i \<Rightarrow> insertIndex i (k, v) ps
            | None \<Rightarrow> ps @ [(k, v)]))"

subsection \<open>Conversion to a string and loose equality\<close>

text \<open>
  The string of a value, as \<open>'' + value\<close> and the elements of \<open>Array.prototype.join\<close>
  compute it: \<open>ToString\<close> of a primitive, and for an object the result of its
  \<open>toString\<close> method. An array joins the strings of its elements with commas, the
  empty string standing for \<open>undefined\<close> and \<open>null\<close>. A plain object inherits
  \<open>Object.prototype.toString\<close> unless it has an own property \<open>toString\<close>; that property
  is data, so it cannot be called, \<open>valueOf\<close> yields no primitive either, and the
  conversion raises a TypeError. The numeral of a number is the decimal one, as it is
  for the integers below \<open>10^21\<close>.
\<close>

fun showNat :: "nat \<Rightarrow> string" where
  "showNat n =
     (if n < 10 then [char_of (48 + n)]
      else showNat (n div 10) @ [char_of (48 + n mod 10)])"

definition showInt :: "int \<Rightarrow> string" where
  "showInt i = (if i < 0 then CHR ''-'' # showNat (nat (- i)) else showNat (nat i))"

fun collect :: "(exn + string) list \<Rightarrow> exn + string list" where
  "collect [] = Inr []"
| "collect (Inl e # rs) = Inl e"
| "collect (Inr t # rs) = (case collect rs of Inl e \<Rightarrow> Inl e | Inr ts \<Rightarrow> Inr (t # ts))"

fun joinComma :: "string list \<Rightarrow> string" where
  "joinComma [] = []"
| "joinComma [t] = t"
| "joinComma (t # u # us) = t @ '','' @ joinComma (u # us)"

fun toStringJS :: "jsval \<Rightarrow> exn + string" where
  "toStringJS Undefined = Inr ''undefined''"
| "toStringJS Null = Inr ''null''"
| "toStringJS (Boolean b) = Inr (if b then ''true'' else ''false'')"
| "toStringJS (Number n) = Inr (showInt n)"
| "toStringJS (Str t) = Inr t"
| "toStringJS (ArrayBuffer bs) = Inr ''[object ArrayBuffer]''"
| "toStringJS (Array xs) =
     (case collect (map (\<lambda>x. case x of Undefined \<Rightarrow> Inr [] | Null \<Rightarrow> Inr [] | _ \<Rightarrow> toStringJS x) xs) of
        Inl e \<Rightarrow> Inl e
      | Inr ts \<Rightarrow> Inr (joinComma ts))"
| "toStringJS (Obj ps) =
     (if ''toString'' \<in> set (map fst ps) then Inl TypeError else Inr ''[object Object]'')"

text \<open>
  \<open>value == word\<close> for a string \<open>word\<close> whose number is \<open>NaN\<close>, such as \<open>'remote'\<close> and
  \<open>'local'\<close>: a string
  is compared as it is, \<open>undefined\<close> and \<open>null\<close> equal no string, a boolean or a number
  is compared with that number and so differs, and an object is compared
  through its primitive, which for these objects is its string.
\<close>

fun looseEqualsWord :: "jsval \<Rightarrow> string \<Rightarrow> exn + bool" where
  "looseEqualsWord (Str t) w = Inr (t = w)"
| "looseEqualsWord Undefined w = Inr False"
| "looseEqualsWord Null w = Inr False"
| "looseEqualsWord (Boolean b) w = Inr False"
| "looseEqualsWord (Number n) w = Inr False"
| "looseEqualsWord v w = (case toStringJS v of Inl e \<Rightarrow> Inl e | Inr t \<Rightarrow> Inr (t = w))"

section \<open>Object stores with the key path \<open>path\<close>\<close>

text \<open>
  Both object stores are created with \<open>{ keyPath: 'path' }\<close>: the key of a record is
  its own \<open>path\<close> property, a store holds at most one record per key, and a cursor visits
  the records in ascending key order. A store is the list of its records in cursor order.
\<close>

record keyed =
  path :: string

type_synonym 'v objectStore = "'v list"

definition os_inv :: "'a keyed_scheme objectStore \<Rightarrow> bool" where
  "os_inv s = sorted_wrt (<) (map path s)"

fun os_get :: "'a keyed_scheme objectStore \<Rightarrow> string \<Rightarrow> 'a keyed_scheme option" where
  "os_get [] k = None"
| "os_get (w # ws) k = (if path w = k then Some w else os_get ws k)"

fun os_put :: "'a keyed_scheme \<Rightarrow> 'a keyed_scheme objectStore \<Rightarrow> 'a keyed_scheme objectStore" where
  "os_put v [] = [v]"
| "os_put v (w # ws) =
     (if path v < path w then v # w # ws
      else if path v = path w then v # ws
      else w # os_put v ws)"

fun os_delete :: "string \<Rightarrow> 'a keyed_scheme objectStore \<Rightarrow> 'a keyed_scheme objectStore" where
  "os_delete k [] = []"
| "os_delete k (w # ws) = (if path w = k then os_delete k ws else w # os_delete k ws)"

section \<open>Nodes\<close>

text \<open>
  The body of a document node is an opaque payload; the \<open>body\<close> and \<open>cached\<close> of a
  directory node are objects whose properties all have the value \<open>true\<close>, kept here as
  the set of their property names. Every property but \<open>path\<close> may be absent.
\<close>

datatype 'b content = Payload 'b | Listing "string set"

record 'b node = keyed +
  contentType :: "string option"
  body :: "'b content option"
  cached :: "string set option"
  revision :: "string option"

datatype namespace = Body | Cached

definition isFolder :: "string \<Rightarrow> bool" where
  "isFolder p \<longleftrightarrow> p \<noteq> [] \<and> last p = CHR ''/''"

definition makeNode :: "string \<Rightarrow> 'b node" where
  "makeNode p =
     (if isFolder p
      then \<lparr>path = p, contentType = Some ''application/json'', body = Some (Listing {}),
            cached = Some {}, revision = None\<rparr>
      else \<lparr>path = p, contentType = None, body = None, cached = None, revision = None\<rparr>)"

text \<open>
  \<open>Object.keys(node.body).length > 0 || Object.keys(node.cached).length > 0\<close>.
  \<open>Object.keys\<close> of an absent property raises a TypeError; the right operand is only
  evaluated when the left one is false. A payload in the place of a listing does not
  arise (the store never holds a document under a folder key) and is reported as an
  error as well.
\<close>

definition keepDirNode :: "'b node \<Rightarrow> exn + bool" where
  "keepDirNode n =
     (case body n of
        Some (Listing bs) \<Rightarrow>
          if bs \<noteq> {} then Inr True
          else (case cached n of Some cs \<Rightarrow> Inr (cs \<noteq> {}) | None \<Rightarrow> Inl TypeError)
      | _ \<Rightarrow> Inl TypeError)"

text \<open>
  \<open>node[key][basename] = true\<close> and \<open>delete node[key][basename]\<close>. The listing is a
  plain object, so assigning \<open>true\<close> to the name \<open>__proto__\<close> calls the setter inherited
  from \<open>Object.prototype\<close>, which ignores a value that is no object: no property is
  created. \<open>delete\<close> removes an own property of any name.
\<close>

definition assignTrue :: "string \<Rightarrow> string set \<Rightarrow> string set" where
  "assignTrue b bs = (if b = ''__proto__'' then bs else insert b bs)"

fun set_entry :: "'b node \<Rightarrow> namespace \<Rightarrow> string \<Rightarrow> exn + 'b node" where
  "set_entry n Body b =
     (case body n of
        Some (Listing bs) \<Rightarrow> Inr (n\<lparr>body := Some (Listing (assignTrue b bs))\<rparr>)
      | _ \<Rightarrow> Inl TypeError)"
| "set_entry n Cached b =
     (case cached n of
        Some cs \<Rightarrow> Inr (n\<lparr>cached := Some (assignTrue b cs)\<rparr>)
      | None \<Rightarrow> Inl TypeError)"

fun delete_entry :: "'b node \<Rightarrow> namespace \<Rightarrow> string \<Rightarrow> exn + 'b node" where
  "delete_entry n Body b =
     (case body n of
        Some (Listing bs) \<Rightarrow> Inr (n\<lparr>body := Some (Listing (bs - {b}))\<rparr>)
      | _ \<Rightarrow> Inl TypeError)"
| "delete_entry n Cached b =
     (case cached n of
        Some cs \<Rightarrow> Inr (n\<lparr>cached := Some (cs - {b})\<rparr>)
      | None \<Rightarrow> Inl TypeError)"

section \<open>Splitting a path\<close>

text \<open>
  \<open>path.match(/^(.*\/)([^\/]+\/?)$/)\<close>. A match splits the path into a directory name
  that ends in a slash and holds no line terminator (the dot does not match one), and a
  base name: one or more characters other than a slash, then at most one slash, up to
  the end of the string. The base name cannot hold an inner slash, so the split is
  unique: the optional slash is taken exactly when the path ends in one, and the base
  name starts after the last slash before it.
\<close>

definition lineTerminator :: "char \<Rightarrow> bool" where
  "lineTerminator c \<longleftrightarrow> c = CHR 0x0A \<or> c = CHR 0x0D"

definition parts :: "string \<Rightarrow> (string \<times> string) option" where
  "parts p =
     (let core = (if isFolder p then butlast p else p);
          name = rev (takeWhile (\<lambda>c. c \<noteq> CHR ''/'') (rev core));
          dirname = rev (dropWhile (\<lambda>c. c \<noteq> CHR ''/'') (rev core))
      in if name = [] \<or> dirname = [] \<or> (\<exists>c \<in> set dirname. lineTerminator c) then None
         else Some (dirname, drop (length dirname) p))"

lemma parts_shorter: "parts p = Some (d, b) \<Longrightarrow> length d < length p"
proof -
  assume a: "parts p = Some (d, b)"
  define core where "core = (if isFolder p then butlast p else p)"
  define t where "t = takeWhile (\<lambda>c. c \<noteq> CHR ''/'') (rev core)"
  define r where "r = dropWhile (\<lambda>c. c \<noteq> CHR ''/'') (rev core)"
  have d: "d = rev r" and n: "t \<noteq> []"
    using a unfolding parts_def core_def t_def r_def Let_def by (auto split: if_splits)
  have "t @ r = rev core"
    by (simp add: t_def r_def)
  then have "length t + length r = length core"
    by (metis length_append length_rev)
  moreover have "0 < length t"
    using n by simp
  moreover have "length core \<le> length p"
    by (simp add: core_def)
  moreover have "length d = length r"
    by (simp add: d)
  ultimately show ?thesis by linarith
qed

section \<open>Maintaining the directory nodes\<close>

text \<open>
  The requests of one transaction run one after the other, each success handler placing
  the next request, so a walk is a sequential function of the \<open>nodes\<close> store. An
  exception raised inside a success handler is the result \<open>Inl\<close>; IndexedDB then aborts
  the transaction, which undoes its writes and fires \<open>onabort\<close> in the place of
  \<open>oncomplete\<close>.
\<close>

text \<open>\<open>evt.target.result || makeNode(dirname)\<close>: the stored node, or a fresh one.\<close>

definition loaded :: "'b node objectStore \<Rightarrow> string \<Rightarrow> 'b node" where
  "loaded s d = (case os_get s d of Some n \<Rightarrow> n | None \<Rightarrow> makeNode d)"

function addToParent :: "'b node objectStore \<Rightarrow> string \<Rightarrow> namespace \<Rightarrow> exn + 'b node objectStore" where
  "addToParent nodes p key =
     (case parts p of
        None \<Rightarrow> Inr nodes
      | Some (dirname, basename) \<Rightarrow>
          (case set_entry (loaded nodes dirname) key basename of
             Inl e \<Rightarrow> Inl e
           | Inr n' \<Rightarrow>
               if dirname \<noteq> ''/'' then addToParent (os_put n' nodes) dirname key
               else Inr (os_put n' nodes)))"
  by pat_completeness auto
termination
  by (relation "measure (\<lambda>(nodes, p, key). length p)") (auto simp: parts_shorter)

function removeFromParent :: "'b node objectStore \<Rightarrow> string \<Rightarrow> namespace \<Rightarrow> exn + 'b node objectStore" where
  "removeFromParent nodes p key =
     (case parts p of
        None \<Rightarrow> Inr nodes
      | Some (dirname, basename) \<Rightarrow>
          (case os_get nodes dirname of
             None \<Rightarrow> Inl TypeError
           | Some n \<Rightarrow>
               (case delete_entry n key basename of
                  Inl e \<Rightarrow> Inl e
                | Inr n' \<Rightarrow>
                    (case keepDirNode n' of
                       Inl e \<Rightarrow> Inl e
                     | Inr True \<Rightarrow> Inr (os_put n' nodes)
                     | Inr False \<Rightarrow>
                         if dirname \<noteq> ''/'' then removeFromParent (os_delete (path n') nodes) dirname key
                         else Inr (os_delete (path n') nodes)))))"
  by pat_completeness auto
termination
  by (relation "measure (\<lambda>(nodes, p, key). length p)") (auto simp: parts_shorter)

section \<open>The database\<close>

text \<open>
  A change record has its key \<open>path\<close> and the attribute fields that the callers of
  \<open>_recordChange\<close> pass: \<open>action\<close> and \<open>conflict\<close>. The fields are kept as the list of
  the record's properties, so that the merge is the loop of the source.
\<close>

datatype field = Action | Conflict

record change = keyed +
  props :: "(field \<times> jsval) list"

text \<open>
  An emitted event: \<open>_emit('change', {path, origin, oldValue, newValue})\<close>, where an
  absent value is \<open>undefined\<close>, and \<open>_emit('conflict', event)\<close>, where a property of the
  event object is a piece of data or the function \<open>resolve\<close>. The event handling
  behind \<open>_emit\<close> is not among the sources; an emitted event is appended to the list of
  the events emitted so far.
\<close>

datatype eventval = Data jsval | ResolveFunction

datatype 'b event =
    ChangeEvent string string "'b content option" "'b content option"
  | ConflictEvent "(string \<times> eventval) list"

text \<open>
  The state: the two object stores, the events emitted so far (oldest first) and the
  number of transactions opened so far with \<open>db.transaction\<close>.
\<close>

record 'b db =
  nodes :: "'b node objectStore"
  changes :: "change objectStore"
  emitted :: "'b event list"
  transactions :: nat

definition empty_db :: "'b db" where
  "empty_db = \<lparr>nodes = [], changes = [], emitted = [], transactions = 0\<rparr>"

text \<open>
  What the caller of an operation sees: an exception thrown by the call itself, or the
  promise fulfilled with the given arguments, or the promise rejected because the
  transaction was aborted (an aborted transaction writes nothing).
\<close>

datatype outcome = Thrown exn | Fulfilled "jsval list" | Rejected exn

subsection \<open>The change log\<close>

text \<open>
  \<open>_recordChange\<close>: one transaction on \<open>changes\<close>; the handler of \<open>changes.get(path)\<close>
  takes the stored record or \<open>{}\<close>, sets its \<open>path\<close>, copies every attribute over it and puts
  it back.
\<close>

definition recordChange :: "string \<Rightarrow> (field \<times> jsval) list \<Rightarrow> 'b db \<Rightarrow> 'b db" where
  "recordChange p attributes db =
     (let change0 = (case os_get (changes db) p of Some c \<Rightarrow> c | None \<Rightarrow> \<lparr>path = [], props = []\<rparr>);
          change1 = change0\<lparr>path := p\<rparr>;
          change2 = change1\<lparr>props := fold (\<lambda>(k, v). AList.update k v) attributes (props change1)\<rparr>
      in db\<lparr>changes := os_put change2 (changes db), transactions := Suc (transactions db)\<rparr>)"

definition clearChange :: "string \<Rightarrow> 'b db \<Rightarrow> 'b db" where
  "clearChange p db =
     db\<lparr>changes := os_delete p (changes db), transactions := Suc (transactions db)\<rparr>"

text \<open>
  \<open>changesBelow\<close>: the cursor is opened at the first key that is not below \<open>path\<close>
  (\<open>IDBKeyRange.lowerBound(path)\<close>); the handler pushes the record and continues while
  \<open>cursor.key.substr(0, pl) == path\<close>, and does not continue at the first other key.
\<close>

fun cursor_from :: "string \<Rightarrow> 'a keyed_scheme objectStore \<Rightarrow> 'a keyed_scheme objectStore" where
  "cursor_from lower [] = []"
| "cursor_from lower (c # cs) = (if path c < lower then cursor_from lower cs else c # cs)"

fun cursor_loop :: "string \<Rightarrow> 'a keyed_scheme objectStore \<Rightarrow> 'a keyed_scheme list" where
  "cursor_loop p [] = []"
| "cursor_loop p (c # cs) = (if take (length p) (path c) = p then c # cursor_loop p cs else [])"

definition changesBelow :: "string \<Rightarrow> 'b db \<Rightarrow> change list" where
  "changesBelow p db = cursor_loop p (cursor_from p (changes db))"

subsection \<open>Documents\<close>

text \<open>
  \<open>put\<close>: the folder test throws before \<open>db.transaction\<close> is called. The transaction
  reads the old node, puts the new node \<open>{path, contentType, body}\<close> and walks up with
  \<open>addToParent\<close>; when it completes, the change event is emitted, the change is recorded
  unless \<open>incoming\<close>, and the promise is fulfilled with 200. The body is a payload that
  the store can hold and the content type is a string, so nothing is raised inside the
  two \<open>try\<close> blocks (they call \<open>nodes.put\<close> and place the first request of
  \<open>addToParent\<close>) and their \<open>catch\<close> blocks are not entered; an exception in a later
  handler of the walk is not caught there and aborts the transaction.
\<close>

definition put :: "string \<Rightarrow> 'b \<Rightarrow> string \<Rightarrow> bool \<Rightarrow> 'b db \<Rightarrow> outcome \<times> 'b db" where
  "put p b ct incoming db =
     (if isFolder p then (Thrown BadPutFolders, db)
      else
        let db1 = db\<lparr>transactions := Suc (transactions db)\<rparr>;
            oldNode = os_get (nodes db) p;
            node = \<lparr>path = p, contentType = Some ct, body = Some (Payload b),
                    cached = None, revision = None\<rparr>
        in case addToParent (os_put node (nodes db)) p Body of
             Inl e \<Rightarrow> (Rejected e, db1)
           | Inr ns \<Rightarrow>
               let db2 = db1\<lparr>nodes := ns,
                              emitted := emitted db1 @
                                [ChangeEvent p (if incoming then ''remote'' else ''window'')
                                   (case oldNode of Some n \<Rightarrow> body n | None \<Rightarrow> None)
                                   (Some (Payload b))]\<rparr>
               in (Fulfilled [Number 200],
                   if \<not> incoming then recordChange p [(Action, Str ''PUT'')] db2 else db2))"

text \<open>
  \<open>delete\<close>: the same shape; the event is emitted only when an old node was read.
\<close>

definition delete :: "string \<Rightarrow> bool \<Rightarrow> 'b db \<Rightarrow> outcome \<times> 'b db" where
  "delete p incoming db =
     (if isFolder p then (Thrown BadDeleteFolders, db)
      else
        let db1 = db\<lparr>transactions := Suc (transactions db)\<rparr>;
            oldNode = os_get (nodes db) p
        in case removeFromParent (os_delete p (nodes db)) p Body of
             Inl e \<Rightarrow> (Rejected e, db1)
           | Inr ns \<Rightarrow>
               let db2 = db1\<lparr>nodes := ns,
                              emitted := emitted db1 @
                                (case oldNode of
                                   Some n \<Rightarrow> [ChangeEvent p (if incoming then ''remote'' else ''window'')
                                                (body n) None]
                                 | None \<Rightarrow> [])\<rparr>
               in (Fulfilled [Number 200],
                   if \<not> incoming then recordChange p [(Action, Str ''DELETE'')] db2 else db2))"

text \<open>
  \<open>setRevision(path, revision)\<close> is \<open>setRevisions([[path, revision]])\<close>: with a single
  pair the requests of the transaction run in sequence.
\<close>

definition setRevision :: "string \<Rightarrow> string \<Rightarrow> 'b db \<Rightarrow> outcome \<times> 'b db" where
  "setRevision p r db =
     (let db1 = db\<lparr>transactions := Suc (transactions db)\<rparr>;
          node = (loaded (nodes db) p)\<lparr>revision := Some r\<rparr>
      in case addToParent (os_put node (nodes db)) p Cached of
           Inl e \<Rightarrow> (Rejected e, db1)
         | Inr ns \<Rightarrow> (Fulfilled [], db1\<lparr>nodes := ns\<rparr>))"

subsection \<open>Conflicts\<close>

text \<open>
  \<open>setConflict\<close> builds the event from \<open>{path: path}\<close> and the attributes, records
  \<open>{conflict: attributes}\<close> and emits the event, which by then carries \<open>resolve\<close>.
  \<open>resolve\<close> closes over \<open>path\<close> and the \<open>attributes\<close> object, which it mutates: the
  model passes both and returns the thrown exception if any, the attributes as they are
  after the call, and the database. The test is
  \<open>resolution == 'remote' || resolution == 'local'\<close>, with the loose equality of the
  language; an exception of the comparison leaves \<open>resolve\<close> like the \<open>throw\<close> of its
  last branch, whose string ends in the string of the argument.
\<close>

definition setConflict :: "string \<Rightarrow> (string \<times> jsval) list \<Rightarrow> 'b db \<Rightarrow> 'b db" where
  "setConflict p attributes db =
     (let event = fold (\<lambda>(k, v). assign k (Data v)) attributes [(''path'', Data (Str p))];
          db1 = recordChange p [(Conflict, Obj attributes)] db
      in db1\<lparr>emitted := emitted db1 @ [ConflictEvent (assign ''resolve'' ResolveFunction event)]\<rparr>)"

definition resolve ::
  "string \<Rightarrow> (string \<times> jsval) list \<Rightarrow> jsval \<Rightarrow> 'b db \<Rightarrow>
   exn option \<times> (string \<times> jsval) list \<times> 'b db" where
  "resolve p attributes resolution db =
     (case looseEqualsWord resolution ''remote'' of
        Inl e \<Rightarrow> (Some e, attributes, db)
      | Inr r \<Rightarrow>
          (case (if r then Inr True else looseEqualsWord resolution ''local'') of
             Inl e \<Rightarrow> (Some e, attributes, db)
           | Inr True \<Rightarrow>
               let attributes' = assign ''resolution'' resolution attributes
               in (None, attributes', recordChange p [(Conflict, Obj attributes')] db)
           | Inr False \<Rightarrow>
               (case toStringJS resolution of
                  Inl e \<Rightarrow> (Some e, attributes, db)
                | Inr t \<Rightarrow> (Some (InvalidResolution t), attributes, db))))"

section \<open>The transport\<close>

text \<open>
  \<open>doCall\<close> builds the request object and hands it to \<open>platform.ajax\<close>; the model
  returns that object (its properties \<open>method\<close> and \<open>fields\<close> are \<open>requestMethod\<close> and
  \<open>xhrFields\<close> here). An absent token or MIME type is \<open>None\<close>, and the empty string is
  falsy as well. What is passed as \<open>deadLine\<close> is nothing, a number of milliseconds or,
  from \<open>put\<close> and \<open>set\<close>, a callback function; \<open>deadLine || 5000\<close> replaces nothing and
  zero.
\<close>

datatype timeoutval = Milliseconds int | Callback

record platformObj =
  url :: string
  requestMethod :: string
  timeout :: timeoutval
  headers :: "(string \<times> string) list"
  xhrFields :: "(string \<times> string) list"
  data :: "jsval option"

definition doCall ::
  "string \<Rightarrow> string \<Rightarrow> jsval \<Rightarrow> string option \<Rightarrow> string option \<Rightarrow> timeoutval option \<Rightarrow>
   platformObj" where
  "doCall m u b mimeType token deadLine =
     \<lparr>url = u, requestMethod = m,
      timeout =
        (case deadLine of
           None \<Rightarrow> Milliseconds 5000
         | Some (Milliseconds n) \<Rightarrow> if n \<noteq> 0 then Milliseconds n else Milliseconds 5000
         | Some Callback \<Rightarrow> Callback),
      headers =
        (case token of
           Some t \<Rightarrow> if t \<noteq> [] then [(''Authorization'', ''Bearer '' @ t)] else []
         | None \<Rightarrow> []) @
        (case mimeType of
           Some mt \<Rightarrow>
             if mt \<noteq> []
             then [(''Content-Type'',
                    if typeof b = ''object'' \<and> instanceofArrayBuffer b
                    then mt @ ''; charset=binary'' else mt)]
             else []
         | None \<Rightarrow> []),
      xhrFields = [(''withCredentials'', ''true'')],
      data = (if m \<noteq> ''GET'' then Some b else None)\<rparr>"

text \<open>
  Modelled from the spec: \<open>util.makePromise\<close> and \<open>platform.ajax\<close> are not among the
  sources. By the transport interface of the spec a call issues a delete or a write, so
  the function given to \<open>makePromise\<close> runs and \<open>platform.ajax\<close> issues the request
  object it is given: a call of \<open>doCall\<close> is one issued request.

  What a call of the transport does: the error messages it passes to the callback
  \<open>cb(new Error(...))\<close> before it returns, and the requests it issues through \<open>doCall\<close>.
  \<open>put\<close> and \<open>set\<close> pass a function in the place of \<open>deadLine\<close>.
\<close>

record trace =
  cb_errors :: "string list"
  requests :: "platformObj list"

definition put_transport :: "string \<Rightarrow> jsval \<Rightarrow> string option \<Rightarrow> string option \<Rightarrow> trace" where
  "put_transport u v mimeType token =
     \<lparr>cb_errors =
        (if \<not> (typeof v = ''string'' \<or> (typeof v = ''object'' \<and> instanceofArrayBuffer v))
         then [''invalid value given to PUT, only strings allowed, got '' @ typeof v]
         else []),
      requests = [doCall ''PUT'' u v mimeType token (Some Callback)]\<rparr>"

definition set_transport :: "string \<Rightarrow> jsval \<Rightarrow> string option \<Rightarrow> string option \<Rightarrow> trace" where
  "set_transport u valueStr mimeType token =
     (if typeof valueStr = ''undefined''
      then \<lparr>cb_errors = [], requests = [doCall ''DELETE'' u Null None token (Some Callback)]\<rparr>
      else put_transport u valueStr mimeType token)"

section \<open>Example states\<close>

text \<open>The states used to run the operations on concrete inputs; payloads are strings.\<close>

definition db_changes :: "string db" where
  "db_changes =
     recordChange ''b/w'' [(Action, Str ''PUT'')]
       (recordChange ''a/y/z'' [(Action, Str ''DELETE'')]
         (recordChange ''a/x'' [(Action, Str ''PUT'')] empty_db))"

definition db_x_rev :: "string db" where
  "db_x_rev = snd (setRevision ''x'' ''r1'' (snd (put ''x'' ''v1'' ''text/plain'' False empty_db)))"

definition db_abc :: "string db" where
  "db_abc = snd (put ''a/b/c'' ''hello'' ''text/plain'' False empty_db)"

definition db_root :: "string db" where
  "db_root = snd (put ''/a'' ''v1'' ''text/plain'' False empty_db)"

definition db_two :: "string db" where
  "db_two = snd (put ''/b'' ''v2'' ''text/plain'' False db_root)"


section \<open>Notions used to state the claims\<close>

text \<open>
  The directory names and base names that the walk from a path visits, nearest first:
  the split of the path, then the split of its directory name, and so on.
\<close>

function ancestors :: "string \<Rightarrow> (string \<times> string) list" where
  "ancestors p = (case parts p of None \<Rightarrow> [] | Some (d, b) \<Rightarrow> (d, b) # ancestors d)"
  by pat_completeness auto
termination
  by (relation "measure length") (auto simp: parts_shorter)


text \<open>
  A directory and the child below it on a walk, such that the directory is left with
  both listings empty once the entry of the child is deleted from the namespace.
\<close>

definition emptied :: "'b node objectStore \<Rightarrow> namespace \<Rightarrow> string \<times> string \<Rightarrow> bool" where
  "emptied s key dc \<longleftrightarrow>
     (\<exists>n n'. os_get s (fst dc) = Some n \<and> delete_entry n key (snd dc) = Inr n'
             \<and> keepDirNode n' = Inr False)"

text \<open>Both stores of a database are in key order, one record per key.\<close>

definition db_inv :: "'b db \<Rightarrow> bool" where
  "db_inv db \<longleftrightarrow> os_inv (nodes db) \<and> os_inv (changes db)"

section \<open>Facts about object stores\<close>

declare addToParent.simps [simp del] removeFromParent.simps [simp del]

lemma os_get_path: "os_get s k = Some v \<Longrightarrow> path v = k"
  by (induction s) (auto split: if_splits)

lemma os_get_put: "os_get (os_put v s) k = (if path v = k then Some v else os_get s k)"
  by (induction s) auto

lemma os_get_delete: "os_get (os_delete k s) q = (if q = k then None else os_get s q)"
  by (induction s) auto

lemma set_os_put: "set (os_put v s) \<subseteq> insert v (set s)"
  by (induction s) auto

lemma set_os_delete: "set (os_delete k s) \<subseteq> set s"
  by (induction s) auto

lemma os_inv_Cons: "os_inv (w # ws) \<longleftrightarrow> (\<forall>x \<in> set ws. path w < path x) \<and> os_inv ws"
  by (simp add: os_inv_def)

lemma os_inv_put: "os_inv s \<Longrightarrow> os_inv (os_put v s)"
proof (induction s)
  case Nil
  then show ?case by (simp add: os_inv_def)
next
  case (Cons w ws)
  show ?case
  proof (cases "path v < path w")
    case True
    then show ?thesis using Cons.prems by (auto simp: os_inv_Cons)
  next
    case False
    note nlt = this
    show ?thesis
    proof (cases "path v = path w")
      case True
      then show ?thesis using Cons.prems nlt by (auto simp: os_inv_Cons)
    next
      case False
      then have "path w < path v" using nlt by auto
      moreover have "os_inv (os_put v ws)" using Cons by (simp add: os_inv_Cons)
      ultimately show ?thesis using Cons.prems nlt False set_os_put [of v ws]
        by (auto simp: os_inv_Cons)
    qed
  qed
qed

lemma os_inv_delete: "os_inv s \<Longrightarrow> os_inv (os_delete k s)"
  using set_os_delete [of k] by (induction s) (auto simp: os_inv_Cons)

lemma os_put_same: "os_inv s \<Longrightarrow> os_get s (path v) = Some v \<Longrightarrow> os_put v s = s"
proof (induction s)
  case Nil
  then show ?case by simp
next
  case (Cons w ws)
  show ?case
  proof (cases "path w = path v")
    case True
    then show ?thesis using Cons.prems by simp
  next
    case False
    then have g: "os_get ws (path v) = Some v" using Cons.prems by simp
    then have "v \<in> set ws" by (induction ws) (auto split: if_splits)
    then have "path w < path v" using Cons.prems by (auto simp: os_inv_Cons)
    then show ?thesis using Cons g False by (auto simp: os_inv_Cons)
  qed
qed

section \<open>Facts about the upward walk of \<open>addToParent\<close>\<close>

lemma path_loaded: "path (loaded s d) = d"
  by (auto simp: loaded_def makeNode_def dest: os_get_path split: option.splits)

lemma set_entry_path: "set_entry n key b = Inr n' \<Longrightarrow> path n' = path n"
  by (cases key) (auto split: option.splits content.splits)

lemma assignTrue_idem: "assignTrue b (assignTrue b bs) = assignTrue b bs"
  by (simp add: assignTrue_def)

lemma set_entry_idem: "set_entry n key b = Inr n' \<Longrightarrow> set_entry n' key b = Inr n'"
  by (cases key) (auto simp: assignTrue_idem split: option.splits content.splits)

lemma addToParent_None: "parts p = None \<Longrightarrow> addToParent s p key = Inr s"
  by (subst addToParent.simps) simp

lemma addToParent_Some:
  "parts p = Some (d, b) \<Longrightarrow>
   addToParent s p key =
     (case set_entry (loaded s d) key b of
        Inl e \<Rightarrow> Inl e
      | Inr n' \<Rightarrow> if d \<noteq> ''/'' then addToParent (os_put n' s) d key else Inr (os_put n' s))"
  by (subst addToParent.simps) simp

lemma addToParent_cases:
  assumes "addToParent s p key = Inr s'"
  obtains (stop) "parts p = None" "s' = s"
  | (root) b n' where "parts p = Some (''/'', b)" "set_entry (loaded s ''/'') key b = Inr n'"
      "s' = os_put n' s"
  | (up) d b n' where "parts p = Some (d, b)" "d \<noteq> ''/''" "set_entry (loaded s d) key b = Inr n'"
      "addToParent (os_put n' s) d key = Inr s'"
proof (cases "parts p")
  case None
  then show ?thesis using assms stop by (simp add: addToParent_None)
next
  case (Some x)
  obtain d b where x: "x = (d, b)" by (cases x)
  have ps: "parts p = Some (d, b)" using Some x by simp
  show ?thesis
  proof (cases "set_entry (loaded s d) key b")
    case (Inl e)
    then show ?thesis using assms ps by (simp add: addToParent_Some)
  next
    case (Inr n')
    show ?thesis
    proof (cases "d = ''/''")
      case True
      then show ?thesis using assms ps Inr root by (simp add: addToParent_Some)
    next
      case False
      then show ?thesis using assms ps Inr up by (simp add: addToParent_Some)
    qed
  qed
qed

lemma addToParent_frame:
  "addToParent s p key = Inr s' \<Longrightarrow> length p \<le> length q \<Longrightarrow> os_get s' q = os_get s q"
proof (induction "length p" arbitrary: s p s' rule: less_induct)
  case less
  from less.prems(1) show ?case
  proof (cases rule: addToParent_cases)
    case stop
    then show ?thesis by simp
  next
    case (root b n')
    have "path n' = ''/''" using root(2) by (simp add: set_entry_path path_loaded)
    moreover have "length ''/'' < length p" using root(1) by (rule parts_shorter)
    ultimately have "path n' \<noteq> q" using less.prems(2) by auto
    then show ?thesis using root(3) by (simp add: os_get_put)
  next
    case (up d b n')
    have pn: "path n' = d" using up(3) by (simp add: set_entry_path path_loaded)
    have sh: "length d < length p" using up(1) by (rule parts_shorter)
    then have "path n' \<noteq> q" using less.prems(2) pn by auto
    moreover have "os_get s' q = os_get (os_put n' s) q"
      using less.hyps [OF sh up(4)] sh less.prems(2) by simp
    ultimately show ?thesis by (simp add: os_get_put)
  qed
qed

lemma addToParent_inv: "os_inv s \<Longrightarrow> addToParent s p key = Inr s' \<Longrightarrow> os_inv s'"
proof (induction "length p" arbitrary: s p s' rule: less_induct)
  case less
  from less.prems(2) show ?case
  proof (cases rule: addToParent_cases)
    case stop
    then show ?thesis using less.prems(1) by simp
  next
    case (root b n')
    then show ?thesis using less.prems(1) by (simp add: os_inv_put)
  next
    case (up d b n')
    have sh: "length d < length p" using up(1) by (rule parts_shorter)
    show ?thesis using less.hyps [OF sh _ up(4)] less.prems(1) by (simp add: os_inv_put)
  qed
qed

lemma addToParent_idem:
  "os_inv s \<Longrightarrow> addToParent s p key = Inr s' \<Longrightarrow> addToParent s' p key = Inr s'"
proof (induction "length p" arbitrary: s p s' rule: less_induct)
  case less
  from less.prems(2) show ?case
  proof (cases rule: addToParent_cases)
    case stop
    then show ?thesis by (simp add: addToParent_None)
  next
    case (root b n')
    have pn: "path n' = ''/''" using root(2) by (simp add: set_entry_path path_loaded)
    have g: "os_get s' ''/'' = Some n'" using root(3) pn by (simp add: os_get_put)
    then have l: "loaded s' ''/'' = n'" by (simp add: loaded_def)
    have "os_inv s'" using root(3) less.prems(1) by (simp add: os_inv_put)
    then have "os_put n' s' = s'" using g pn by (simp add: os_put_same)
    then show ?thesis using root(1) l set_entry_idem [OF root(2)] by (simp add: addToParent_Some)
  next
    case (up d b n')
    have pn: "path n' = d" using up(3) by (simp add: set_entry_path path_loaded)
    have sh: "length d < length p" using up(1) by (rule parts_shorter)
    have i1: "os_inv (os_put n' s)" using less.prems(1) by (simp add: os_inv_put)
    have "os_get s' d = os_get (os_put n' s) d" using up(4) by (rule addToParent_frame) simp
    then have g: "os_get s' d = Some n'" using pn by (simp add: os_get_put)
    then have l: "loaded s' d = n'" by (simp add: loaded_def)
    have "os_inv s'" using i1 up(4) by (rule addToParent_inv)
    then have same: "os_put n' s' = s'" using g pn by (simp add: os_put_same)
    have "addToParent s' d key = Inr s'" using less.hyps [OF sh i1 up(4)] .
    then show ?thesis using up(1,2) l set_entry_idem [OF up(3)] same by (simp add: addToParent_Some)
  qed
qed

section \<open>Facts about prefixes and the key order\<close>

lemma take_prefix_iff: "take (length p) k = p \<longleftrightarrow> prefix p k"
  by (metis append_eq_conv_conj prefix_def)

lemma prefix_le: "prefix p k \<Longrightarrow> p \<le> (k :: string)"
proof (induction p arbitrary: k)
  case Nil
  then show ?case by simp
next
  case (Cons a p)
  then obtain k' where "k = a # k'" "prefix p k'" by (cases k) auto
  then show ?case using Cons.IH by simp
qed

lemma prefix_between:
  "prefix p k' \<Longrightarrow> p \<le> k \<Longrightarrow> k < k' \<Longrightarrow> prefix p (k :: string)"
proof (induction p arbitrary: k k')
  case Nil
  then show ?case by simp
next
  case (Cons a p)
  obtain k1 where k': "k' = a # k1" and p1: "prefix p k1"
    using Cons.prems(1) by (cases k') auto
  obtain c k2 where k: "k = c # k2"
    using Cons.prems(2) by (cases k) auto
  have "a < c \<or> a = c \<and> p \<le> k2" using Cons.prems(2) k by simp
  moreover have "c < a \<or> c = a \<and> k2 < k1" using Cons.prems(3) k k' by simp
  ultimately have "a = c" "p \<le> k2" "k2 < k1" by auto
  then show ?case using Cons.IH [OF p1] k by simp
qed

lemma cursor_from_filter:
  "os_inv s \<Longrightarrow> filter (\<lambda>c. prefix p (path c)) (cursor_from p s) = filter (\<lambda>c. prefix p (path c)) s"
proof (induction s)
  case Nil
  then show ?case by simp
next
  case (Cons c cs)
  have "\<not> prefix p (path c)" if "path c < p"
    using that prefix_le [of p "path c"] by auto
  then show ?case using Cons by (auto simp: os_inv_def)
qed

lemma cursor_from_low: "os_inv s \<Longrightarrow> \<forall>c \<in> set (cursor_from p s). p \<le> path c"
  by (induction s) (auto simp: os_inv_def)

lemma cursor_from_inv: "os_inv s \<Longrightarrow> os_inv (cursor_from p s)"
  by (induction s) (auto simp: os_inv_def)

lemma cursor_loop_filter:
  "os_inv s \<Longrightarrow> \<forall>c \<in> set s. p \<le> path c \<Longrightarrow> cursor_loop p s = filter (\<lambda>c. prefix p (path c)) s"
proof (induction s)
  case Nil
  then show ?case by simp
next
  case (Cons c cs)
  show ?case
  proof (cases "prefix p (path c)")
    case True
    then show ?thesis using Cons by (simp add: take_prefix_iff os_inv_def)
  next
    case False
    have "\<not> prefix p (path x)" if "x \<in> set cs" for x
    proof
      assume "prefix p (path x)"
      moreover have "path c < path x" using Cons.prems(1) that by (auto simp: os_inv_def)
      moreover have "p \<le> path c" using Cons.prems(2) by simp
      ultimately have "prefix p (path c)" by (blast intro: prefix_between)
      then show False using False by simp
    qed
    then have "filter (\<lambda>c. prefix p (path c)) cs = []" by (simp add: filter_empty_conv)
    then show ?thesis using False by (simp add: take_prefix_iff)
  qed
qed

section \<open>Evaluating the operations\<close>

declare ancestors.simps [simp del]

lemmas eval_defs = put_def delete_def setRevision_def recordChange_def empty_db_def parts_def
  isFolder_def lineTerminator_def loaded_def makeNode_def keepDirNode_def
  assignTrue_def addToParent.simps removeFromParent.simps

lemma db_x_rev_eval:
  "db_x_rev =
     \<lparr>nodes = [\<lparr>path = ''x'', contentType = Some ''text/plain'', body = Some (Payload ''v1''),
                cached = None, revision = Some ''r1''\<rparr>],
      changes = [\<lparr>path = ''x'', props = [(Action, Str ''PUT'')]\<rparr>],
      emitted = [ChangeEvent ''x'' ''window'' None (Some (Payload ''v1''))],
      transactions = 3\<rparr>"
  by (simp add: db_x_rev_def eval_defs)

lemma db_abc_eval:
  "db_abc =
     \<lparr>nodes =
        [\<lparr>path = ''a/'', contentType = Some ''application/json'', body = Some (Listing {''b/''}),
           cached = Some {}, revision = None\<rparr>,
         \<lparr>path = ''a/b/'', contentType = Some ''application/json'', body = Some (Listing {''c''}),
           cached = Some {}, revision = None\<rparr>,
         \<lparr>path = ''a/b/c'', contentType = Some ''text/plain'', body = Some (Payload ''hello''),
           cached = None, revision = None\<rparr>],
      changes = [\<lparr>path = ''a/b/c'', props = [(Action, Str ''PUT'')]\<rparr>],
      emitted = [ChangeEvent ''a/b/c'' ''window'' None (Some (Payload ''hello''))],
      transactions = 2\<rparr>"
  by (simp add: db_abc_def eval_defs)

lemma db_root_eval:
  "db_root =
     \<lparr>nodes =
        [\<lparr>path = ''/'', contentType = Some ''application/json'', body = Some (Listing {''a''}),
           cached = Some {}, revision = None\<rparr>,
         \<lparr>path = ''/a'', contentType = Some ''text/plain'', body = Some (Payload ''v1''),
           cached = None, revision = None\<rparr>],
      changes = [\<lparr>path = ''/a'', props = [(Action, Str ''PUT'')]\<rparr>],
      emitted = [ChangeEvent ''/a'' ''window'' None (Some (Payload ''v1''))],
      transactions = 2\<rparr>"
  by (simp add: db_root_def eval_defs)

lemma db_two_eval:
  "db_two =
     \<lparr>nodes =
        [\<lparr>path = ''/'', contentType = Some ''application/json'', body = Some (Listing {''a'', ''b''}),
           cached = Some {}, revision = None\<rparr>,
         \<lparr>path = ''/a'', contentType = Some ''text/plain'', body = Some (Payload ''v1''),
           cached = None, revision = None\<rparr>,
         \<lparr>path = ''/b'', contentType = Some ''text/plain'', body = Some (Payload ''v2''),
           cached = None, revision = None\<rparr>],
      changes = [\<lparr>path = ''/a'', props = [(Action, Str ''PUT'')]\<rparr>,
                 \<lparr>path = ''/b'', props = [(Action, Str ''PUT'')]\<rparr>],
      emitted = [ChangeEvent ''/a'' ''window'' None (Some (Payload ''v1'')),
                 ChangeEvent ''/b'' ''window'' None (Some (Payload ''v2''))],
      transactions = 4\<rparr>"
  by (simp add: db_two_def db_root_eval eval_defs) (simp add: insert_commute)

lemma ancestors_a: "ancestors ''/a'' = [(''/'', ''a'')]"
  by (simp add: ancestors.simps parts_def isFolder_def lineTerminator_def)


section \<open>Facts about \<open>put\<close>, \<open>delete\<close> and \<open>_recordChange\<close>\<close>

lemma recordChange_sel [simp]:
  "nodes (recordChange p a db) = nodes db"
  "emitted (recordChange p a db) = emitted db"
  "transactions (recordChange p a db) = Suc (transactions db)"
  by (simp_all add: recordChange_def Let_def)

lemma recordChange_get:
  "os_get (changes (recordChange p a db)) p =
     Some \<lparr>path = p,
           props = fold (\<lambda>(k, v). AList.update k v) a
                     (case os_get (changes db) p of Some c \<Rightarrow> props c | None \<Rightarrow> [])\<rparr>"
  by (simp add: recordChange_def Let_def os_get_put split: option.splits)

lemma put_Fulfilled:
  assumes "put p b ct incoming db = (Fulfilled [Number 200], db')"
  shows "\<not> isFolder p"
    and "addToParent (os_put \<lparr>path = p, contentType = Some ct, body = Some (Payload b),
                                cached = None, revision = None\<rparr> (nodes db)) p Body = Inr (nodes db')"
    and "emitted db' = emitted db @
           [ChangeEvent p (if incoming then ''remote'' else ''window'')
              (case os_get (nodes db) p of Some n \<Rightarrow> body n | None \<Rightarrow> None) (Some (Payload b))]"
    and "incoming \<Longrightarrow> changes db' = changes db"
    and "\<not> incoming \<Longrightarrow> changes db' = changes (recordChange p [(Action, Str ''PUT'')] db)"
  using assms by (auto simp: put_def Let_def recordChange_def split: if_splits sum.splits)

lemma delete_Fulfilled:
  assumes "delete p incoming db = (Fulfilled [Number 200], db')"
  shows "\<not> isFolder p"
    and "removeFromParent (os_delete p (nodes db)) p Body = Inr (nodes db')"
    and "emitted db' = emitted db @
           (case os_get (nodes db) p of
              Some n \<Rightarrow> [ChangeEvent p (if incoming then ''remote'' else ''window'') (body n) None]
            | None \<Rightarrow> [])"
    and "incoming \<Longrightarrow> changes db' = changes db"
    and "\<not> incoming \<Longrightarrow> changes db' = changes (recordChange p [(Action, Str ''DELETE'')] db)"
  using assms by (auto simp: delete_def Let_def recordChange_def split: if_splits sum.splits)

lemma parts_root: "parts ''/'' = None"
  by (simp add: parts_def isFolder_def)

lemma ancestors_None: "parts p = None \<Longrightarrow> ancestors p = []"
  by (subst ancestors.simps) simp

lemma ancestors_Some: "parts p = Some (d, b) \<Longrightarrow> ancestors p = (d, b) # ancestors d"
  by (subst ancestors.simps) simp

lemma ancestors_shorter: "(d, c) \<in> set (ancestors p) \<Longrightarrow> length d < length p"
proof (induction "length p" arbitrary: p rule: less_induct)
  case less
  show ?case
  proof (cases "parts p")
    case None
    then show ?thesis using less.prems by (simp add: ancestors_None)
  next
    case (Some x)
    obtain d' b where ps: "parts p = Some (d', b)" using Some by (cases x) simp
    have sh: "length d' < length p" using ps by (rule parts_shorter)
    have "(d, c) = (d', b) \<or> (d, c) \<in> set (ancestors d')"
      using less.prems ps by (simp add: ancestors_Some)
    then show ?thesis using sh less.hyps [OF sh] by fastforce
  qed
qed

lemma loaded_put_other: "path v \<noteq> d \<Longrightarrow> loaded (os_put v s) d = loaded s d"
  by (simp add: loaded_def os_get_put)

lemma addToParent_nodes:
  "addToParent s p key = Inr s' \<Longrightarrow> (d, c) \<in> set (ancestors p) \<Longrightarrow>
   \<exists>n'. set_entry (loaded s d) key c = Inr n' \<and> os_get s' d = Some n'"
proof (induction "length p" arbitrary: s p s' rule: less_induct)
  case less
  from less.prems(1) show ?case
  proof (cases rule: addToParent_cases)
    case stop
    then show ?thesis using less.prems(2) by (simp add: ancestors_None)
  next
    case (root b n')
    have pn: "path n' = ''/''" using root(2) by (simp add: set_entry_path path_loaded)
    have "ancestors p = [(''/'', b)]" using root(1) by (simp add: ancestors_Some ancestors_None parts_root)
    then have "d = ''/''" "c = b" using less.prems(2) by auto
    then show ?thesis using root(2,3) pn by (simp add: os_get_put)
  next
    case (up d' b n')
    have pn: "path n' = d'" using up(3) by (simp add: set_entry_path path_loaded)
    have sh: "length d' < length p" using up(1) by (rule parts_shorter)
    have "(d, c) = (d', b) \<or> (d, c) \<in> set (ancestors d')"
      using less.prems(2) up(1) by (simp add: ancestors_Some)
    then show ?thesis
    proof
      assume "(d, c) = (d', b)"
      moreover have "os_get s' d' = os_get (os_put n' s) d'" using up(4) by (rule addToParent_frame) simp
      ultimately show ?thesis using pn up(3) by (simp add: os_get_put)
    next
      assume a: "(d, c) \<in> set (ancestors d')"
      then have "length d < length d'" by (rule ancestors_shorter)
      then have "path n' \<noteq> d" using pn by auto
      then have "loaded (os_put n' s) d = loaded s d" by (rule loaded_put_other)
      then show ?thesis using less.hyps [OF sh up(4) a] by simp
    qed
  qed
qed

lemma addToParent_other:
  "addToParent s p key = Inr s' \<Longrightarrow> q \<notin> fst ` set (ancestors p) \<Longrightarrow> os_get s' q = os_get s q"
proof (induction "length p" arbitrary: s p s' rule: less_induct)
  case less
  from less.prems(1) show ?case
  proof (cases rule: addToParent_cases)
    case stop
    then show ?thesis by simp
  next
    case (root b n')
    have pn: "path n' = ''/''" using root(2) by (simp add: set_entry_path path_loaded)
    have "q \<noteq> ''/''" using less.prems(2) root(1) by (auto simp: ancestors_Some)
    then show ?thesis using root(3) pn by (simp add: os_get_put)
  next
    case (up d' b n')
    have pn: "path n' = d'" using up(3) by (simp add: set_entry_path path_loaded)
    have sh: "length d' < length p" using up(1) by (rule parts_shorter)
    have q: "q \<noteq> d'" "q \<notin> fst ` set (ancestors d')"
      using less.prems(2) up(1) by (auto simp: ancestors_Some)
    have "os_get s' q = os_get (os_put n' s) q" using less.hyps [OF sh up(4) q(2)] .
    then show ?thesis using q(1) pn by (simp add: os_get_put)
  qed
qed

section \<open>The split of a path is the match of the pattern\<close>

lemma split_last_slash:
  assumes "n \<noteq> []" and "CHR ''/'' \<notin> set n" and "d \<noteq> []" and "last d = CHR ''/''"
  shows "rev (takeWhile (\<lambda>c. c \<noteq> CHR ''/'') (rev (d @ n))) = n"
    and "rev (dropWhile (\<lambda>c. c \<noteq> CHR ''/'') (rev (d @ n))) = d"
proof -
  have a: "\<forall>c \<in> set (rev n). c \<noteq> CHR ''/''" using assms(2) by auto
  have h: "hd (rev d) = CHR ''/''" using assms(3,4) by (simp add: hd_rev)
  have rd: "rev d \<noteq> []" using assms(3) by simp
  have t0: "takeWhile (\<lambda>c. c \<noteq> CHR ''/'') (rev d) = []"
    using h rd by (cases "rev d") auto
  have d0: "dropWhile (\<lambda>c. c \<noteq> CHR ''/'') (rev d) = rev d"
    using h rd by (cases "rev d") auto
  have "takeWhile (\<lambda>c. c \<noteq> CHR ''/'') (rev n @ rev d)
          = rev n @ takeWhile (\<lambda>c. c \<noteq> CHR ''/'') (rev d)"
    by (rule takeWhile_append2) (use a in blast)
  then have "takeWhile (\<lambda>c. c \<noteq> CHR ''/'') (rev n @ rev d) = rev n"
    using t0 by simp
  then show "rev (takeWhile (\<lambda>c. c \<noteq> CHR ''/'') (rev (d @ n))) = n" by simp
  have "dropWhile (\<lambda>c. c \<noteq> CHR ''/'') (rev n @ rev d)
          = dropWhile (\<lambda>c. c \<noteq> CHR ''/'') (rev d)"
    by (rule dropWhile_append2) (use a in blast)
  then have "dropWhile (\<lambda>c. c \<noteq> CHR ''/'') (rev n @ rev d) = rev d"
    using d0 by simp
  then show "rev (dropWhile (\<lambda>c. c \<noteq> CHR ''/'') (rev (d @ n))) = d" by simp
qed

lemma parts_Some_iff:
  "parts p = Some (d, b) \<longleftrightarrow>
     p = d @ b \<and> d \<noteq> [] \<and> last d = CHR ''/'' \<and> (\<forall>c \<in> set d. \<not> lineTerminator c)
     \<and> (\<exists>n. n \<noteq> [] \<and> CHR ''/'' \<notin> set n \<and> (b = n \<or> b = n @ ''/''))"
  (is "?L \<longleftrightarrow> ?R")
proof
  assume ?L
  define core where "core = (if isFolder p then butlast p else p)"
  define t where "t = takeWhile (\<lambda>c. c \<noteq> CHR ''/'') (rev core)"
  define r where "r = dropWhile (\<lambda>c. c \<noteq> CHR ''/'') (rev core)"
  have d: "d = rev r" and b: "b = drop (length d) p" and tn: "t \<noteq> []" and rn: "r \<noteq> []"
    and lt: "\<forall>c \<in> set d. \<not> lineTerminator c"
    using \<open>?L\<close> unfolding parts_def core_def t_def r_def Let_def by (auto split: if_splits)
  have "t @ r = rev core" by (simp add: t_def r_def)
  then have core: "core = d @ rev t" using d by (metis rev_append rev_rev_ident)
  have "\<not> (hd r \<noteq> CHR ''/'')" using rn unfolding r_def by (rule hd_dropWhile)
  then have ld: "last d = CHR ''/''" using rn d by (simp add: last_rev)
  have sf: "CHR ''/'' \<notin> set (rev t)" unfolding t_def by (auto dest: set_takeWhileD)
  have p: "p = core \<or> p = core @ ''/''"
  proof (cases "isFolder p")
    case True
    then have ne: "p \<noteq> []" and l: "last p = CHR ''/''" by (auto simp: isFolder_def)
    have "butlast p @ [last p] = p" using ne by (rule append_butlast_last_id)
    then show ?thesis using True l by (simp add: core_def)
  next
    case False
    then show ?thesis by (simp add: core_def)
  qed
  then have "p = d @ b \<and> (b = rev t \<or> b = rev t @ ''/'')" using core b by auto
  then show ?R using rn d ld lt tn sf by auto
next
  assume ?R
  then obtain n where p: "p = d @ b" and dn: "d \<noteq> []" and ld: "last d = CHR ''/''"
    and lt: "\<forall>c \<in> set d. \<not> lineTerminator c"
    and nn: "n \<noteq> []" and sf: "CHR ''/'' \<notin> set n" and b: "b = n \<or> b = n @ ''/''" by blast
  have core: "(if isFolder p then butlast p else p) = d @ n"
  proof (cases "b = n")
    case True
    then have "last p = last n" using p nn by simp
    moreover have "last n \<in> set n" using nn by (rule last_in_set)
    ultimately have "\<not> isFolder p" using sf by (auto simp: isFolder_def)
    then show ?thesis using p True by simp
  next
    case False
    then have e: "p = (d @ n) @ ''/''" using b p by simp
    then have "isFolder p" by (simp add: isFolder_def)
    moreover have "butlast p = d @ n" unfolding e by (simp add: butlast_append)
    ultimately show ?thesis by simp
  qed
  show ?L
    unfolding parts_def core Let_def
    using split_last_slash [OF nn sf dn ld] nn dn lt p by simp
qed

section \<open>Facts about the upward walk of \<open>removeFromParent\<close>\<close>

lemma removeFromParent_None: "parts p = None \<Longrightarrow> removeFromParent s p key = Inr s"
  by (subst removeFromParent.simps) simp

lemma removeFromParent_Some:
  "parts p = Some (d, b) \<Longrightarrow>
   removeFromParent s p key =
     (case os_get s d of
        None \<Rightarrow> Inl TypeError
      | Some n \<Rightarrow>
          (case delete_entry n key b of
             Inl e \<Rightarrow> Inl e
           | Inr n' \<Rightarrow>
               (case keepDirNode n' of
                  Inl e \<Rightarrow> Inl e
                | Inr True \<Rightarrow> Inr (os_put n' s)
                | Inr False \<Rightarrow>
                    if d \<noteq> ''/'' then removeFromParent (os_delete (path n') s) d key
                    else Inr (os_delete (path n') s))))"
  by (subst removeFromParent.simps) simp

lemma delete_entry_path: "delete_entry n key b = Inr n' \<Longrightarrow> path n' = path n"
  by (cases key) (auto split: option.splits content.splits)

lemma removeFromParent_cases:
  assumes "removeFromParent s p key = Inr s'"
  obtains (stop) "parts p = None" "s' = s"
  | (keep) d b n n' where "parts p = Some (d, b)" "os_get s d = Some n"
      "delete_entry n key b = Inr n'" "keepDirNode n' = Inr True" "s' = os_put n' s"
  | (root) b n n' where "parts p = Some (''/'', b)" "os_get s ''/'' = Some n"
      "delete_entry n key b = Inr n'" "keepDirNode n' = Inr False" "s' = os_delete ''/'' s"
  | (up) d b n n' where "parts p = Some (d, b)" "d \<noteq> ''/''" "os_get s d = Some n"
      "delete_entry n key b = Inr n'" "keepDirNode n' = Inr False"
      "removeFromParent (os_delete d s) d key = Inr s'"
proof (cases "parts p")
  case None
  then show ?thesis using assms stop by (simp add: removeFromParent_None)
next
  case (Some x)
  obtain d b where ps: "parts p = Some (d, b)" using Some by (cases x) simp
  obtain n where g: "os_get s d = Some n"
    using assms ps by (cases "os_get s d") (simp_all add: removeFromParent_Some)
  obtain n' where de: "delete_entry n key b = Inr n'"
    using assms ps g by (cases "delete_entry n key b") (simp_all add: removeFromParent_Some)
  obtain k where kd: "keepDirNode n' = Inr k"
    using assms ps g de by (cases "keepDirNode n'") (simp_all add: removeFromParent_Some)
  have pn: "path n' = d" using de g by (simp add: delete_entry_path os_get_path)
  show ?thesis
  proof (cases k)
    case True
    then show ?thesis using assms ps g de kd keep by (simp add: removeFromParent_Some)
  next
    case False
    show ?thesis
    proof (cases "d = ''/''")
      case True
      then show ?thesis using assms ps g de kd False pn root by (simp add: removeFromParent_Some)
    next
      case nr: False
      then show ?thesis using assms ps g de kd False pn up by (simp add: removeFromParent_Some)
    qed
  qed
qed

lemma emptied_cong: "os_get s (fst dc) = os_get s' (fst dc) \<Longrightarrow> emptied s key dc = emptied s' key dc"
  by (simp add: emptied_def)

lemma emptied_Body:
  "emptied s Body (d, c) \<longleftrightarrow>
     (\<exists>n bs. os_get s d = Some n \<and> body n = Some (Listing bs) \<and> bs \<subseteq> {c} \<and> cached n = Some {})"
proof (cases "os_get s d")
  case None
  then show ?thesis by (simp add: emptied_def)
next
  case (Some n)
  show ?thesis
  proof (cases "body n")
    case None
    then show ?thesis using Some by (simp add: emptied_def)
  next
    case sb: (Some ct)
    show ?thesis
    proof (cases ct)
      case (Payload x)
      then show ?thesis using Some sb by (simp add: emptied_def)
    next
      case (Listing bs)
      have e: "bs - {c} = {} \<longleftrightarrow> bs \<subseteq> {c}" by blast
      show ?thesis
      proof (cases "cached n")
        case None
        then show ?thesis using Some sb Listing by (simp add: emptied_def keepDirNode_def)
      next
        case sc: (Some cs)
        then show ?thesis using Some sb Listing e by (simp add: emptied_def keepDirNode_def)
      qed
    qed
  qed
qed

lemma removeFromParent_root_iff:
  "removeFromParent s p key = Inr s' \<Longrightarrow> os_get s ''/'' = Some r \<Longrightarrow>
   os_get s' ''/'' = None \<longleftrightarrow>
     ''/'' \<in> fst ` set (ancestors p) \<and> (\<forall>dc \<in> set (ancestors p). emptied s key dc)"
proof (induction "length p" arbitrary: s p rule: less_induct)
  case less
  from less.prems(1) show ?case
  proof (cases rule: removeFromParent_cases)
    case stop
    then show ?thesis using less.prems(2) by (simp add: ancestors_None)
  next
    case (keep d b n n')
    have "os_get s' ''/'' \<noteq> None" using keep(5) less.prems(2) by (simp add: os_get_put)
    moreover have "(d, b) \<in> set (ancestors p)" using keep(1) by (simp add: ancestors_Some)
    moreover have "\<not> emptied s key (d, b)" using keep(2,3,4) by (simp add: emptied_def)
    ultimately show ?thesis by blast
  next
    case (root b n n')
    have "ancestors p = [(''/'', b)]" using root(1) by (simp add: ancestors_Some ancestors_None parts_root)
    moreover have "emptied s key (''/'', b)" using root(2,3,4) by (simp add: emptied_def)
    ultimately show ?thesis using root(5) by (simp add: os_get_delete)
  next
    case (up d b n n')
    have sh: "length d < length p" using up(1) by (rule parts_shorter)
    have g: "os_get (os_delete d s) ''/'' = Some r" using up(2) less.prems(2) by (simp add: os_get_delete)
    have an: "ancestors p = (d, b) # ancestors d" using up(1) by (rule ancestors_Some)
    have em: "emptied s key (d, b)" using up(3,4,5) by (simp add: emptied_def)
    have same: "emptied (os_delete d s) key dc = emptied s key dc" if "dc \<in> set (ancestors d)" for dc
    proof (rule emptied_cong)
      have "(fst dc, snd dc) \<in> set (ancestors d)" using that by simp
      then have "length (fst dc) < length d" by (rule ancestors_shorter)
      then have "fst dc \<noteq> d" by auto
      then show "os_get (os_delete d s) (fst dc) = os_get s (fst dc)" by (simp add: os_get_delete)
    qed
    have "os_get s' ''/'' = None \<longleftrightarrow>
      ''/'' \<in> fst ` set (ancestors d) \<and> (\<forall>dc \<in> set (ancestors d). emptied (os_delete d s) key dc)"
      using less.hyps [OF sh up(6) g] .
    also have "(\<forall>dc \<in> set (ancestors d). emptied (os_delete d s) key dc)
        \<longleftrightarrow> (\<forall>dc \<in> set (ancestors d). emptied s key dc)"
      using same by simp
    finally show ?thesis using an em up(2) by simp
  qed
qed

section \<open>Facts about merged attributes\<close>

lemma map_of_fold_update:
  "distinct (map fst a) \<Longrightarrow>
   map_of (fold (\<lambda>(k, v). AList.update k v) a al) = map_of al ++ map_of a"
proof (induction a arbitrary: al)
  case Nil
  then show ?case by simp
next
  case (Cons x xs)
  obtain k v where x: "x = (k, v)" by (cases x)
  have nk: "map_of xs k = None" using Cons.prems x by (simp add: map_of_eq_None_iff)
  have "map_of (fold (\<lambda>(k, v). AList.update k v) (x # xs) al) = (map_of al)(k \<mapsto> v) ++ map_of xs"
    using Cons x by (simp add: update_conv')
  also have "\<dots> = map_of al ++ map_of (x # xs)"
    using nk x by (auto simp: map_add_def fun_eq_iff split: option.splits)
  finally show ?case .
qed

lemma os_inv_filter_key:
  "os_inv s \<Longrightarrow> os_get s k = Some c \<Longrightarrow> filter (\<lambda>x. path x = k) s = [c]"
proof (induction s)
  case Nil
  then show ?case by simp
next
  case (Cons w ws)
  show ?case
  proof (cases "path w = k")
    case True
    then have "\<forall>x \<in> set ws. path x \<noteq> k" using Cons.prems(1) by (auto simp: os_inv_Cons)
    then have "filter (\<lambda>x. path x = k) ws = []" by (simp add: filter_empty_conv)
    then show ?thesis using True Cons.prems(2) by simp
  next
    case False
    then show ?thesis using Cons by (simp add: os_inv_Cons)
  qed
qed

lemma os_inv_recordChange: "os_inv (changes db) \<Longrightarrow> os_inv (changes (recordChange p a db))"
  by (simp add: recordChange_def Let_def os_inv_put)




section \<open>Facts about the walk of a fulfilled \<open>put\<close>\<close>

lemma put_walk:
  assumes "put p b ct incoming db = (Fulfilled [Number 200], db1)"
    and "(d, c) \<in> set (ancestors p)"
  shows "\<exists>bs. body (loaded (nodes db) d) = Some (Listing bs)
           \<and> os_get (nodes db1) d =
               Some ((loaded (nodes db) d)\<lparr>body := Some (Listing (assignTrue c bs))\<rparr>)"
proof -
  let ?n = "\<lparr>path = p, contentType = Some ct, body = Some (Payload b), cached = None, revision = None\<rparr>"
  have a: "addToParent (os_put ?n (nodes db)) p Body = Inr (nodes db1)"
    using assms(1) by (rule put_Fulfilled(2))
  obtain n' where n': "set_entry (loaded (os_put ?n (nodes db)) d) Body c = Inr n'"
      "os_get (nodes db1) d = Some n'"
    using addToParent_nodes [OF a assms(2)] by blast
  have "length d < length p" using assms(2) by (rule ancestors_shorter)
  then have "path ?n \<noteq> d" by auto
  then have "loaded (os_put ?n (nodes db)) d = loaded (nodes db) d" by (rule loaded_put_other)
  then show ?thesis using n' by (auto split: option.splits content.splits)
qed

lemma put_again:
  assumes "os_inv (nodes db)" and "put p b ct incoming db = (Fulfilled [Number 200], db1)"
  shows "\<exists>db2. put p b ct incoming db1 = (Fulfilled [Number 200], db2) \<and> nodes db2 = nodes db1"
proof -
  let ?n = "\<lparr>path = p, contentType = Some ct, body = Some (Payload b), cached = None, revision = None\<rparr>"
  have nf: "\<not> isFolder p" using assms(2) by (rule put_Fulfilled(1))
  have a: "addToParent (os_put ?n (nodes db)) p Body = Inr (nodes db1)"
    using assms(2) by (rule put_Fulfilled(2))
  have i0: "os_inv (os_put ?n (nodes db))" using assms(1) by (rule os_inv_put)
  have i1: "os_inv (nodes db1)" using i0 a by (rule addToParent_inv)
  have "os_get (nodes db1) p = os_get (os_put ?n (nodes db)) p"
    using a by (rule addToParent_frame) simp
  then have "os_get (nodes db1) (path ?n) = Some ?n" by (simp add: os_get_put)
  then have same: "os_put ?n (nodes db1) = nodes db1" using i1 by (simp add: os_put_same)
  have again: "addToParent (nodes db1) p Body = Inr (nodes db1)"
    using i0 a by (rule addToParent_idem)
  show ?thesis using nf same again by (simp add: put_def Let_def)
qed

section \<open>Facts about \<open>resolve\<close> and the transport\<close>






lemma set_transport_invalid:
  assumes "typeof v \<noteq> ''string''" and "\<not> instanceofArrayBuffer v" and "v \<noteq> Undefined"
  shows "set_transport u v mimeType token =
           \<lparr>cb_errors = [''invalid value given to PUT, only strings allowed, got '' @ typeof v],
            requests = [doCall ''PUT'' u v mimeType token (Some Callback)]\<rparr>"
  using assms by (cases v) (simp_all add: set_transport_def put_transport_def)

section \<open>The key order is kept by every operation\<close>

lemma removeFromParent_inv: "os_inv s \<Longrightarrow> removeFromParent s p key = Inr s' \<Longrightarrow> os_inv s'"
proof (induction "length p" arbitrary: s p rule: less_induct)
  case less
  from less.prems(2) show ?case
  proof (cases rule: removeFromParent_cases)
    case stop
    then show ?thesis using less.prems(1) by simp
  next
    case (keep d b n n')
    then show ?thesis using less.prems(1) by (simp add: os_inv_put)
  next
    case (root b n n')
    then show ?thesis using less.prems(1) by (simp add: os_inv_delete)
  next
    case (up d b n n')
    have sh: "length d < length p" using up(1) by (rule parts_shorter)
    show ?thesis using less.hyps [OF sh _ up(6)] less.prems(1) by (simp add: os_inv_delete)
  qed
qed

lemma db_inv_empty: "db_inv empty_db"
  by (simp add: db_inv_def empty_db_def os_inv_def)

lemma db_inv_recordChange: "db_inv db \<Longrightarrow> db_inv (recordChange p a db)"
  by (simp add: db_inv_def os_inv_recordChange)

lemma db_inv_clearChange: "db_inv db \<Longrightarrow> db_inv (clearChange p db)"
  by (simp add: db_inv_def clearChange_def os_inv_delete)

lemma db_inv_put: "db_inv db \<Longrightarrow> db_inv (snd (put p b ct incoming db))"
  by (auto simp: put_def Let_def db_inv_def os_inv_recordChange
      intro: addToParent_inv os_inv_put split: sum.splits)

lemma db_inv_delete: "db_inv db \<Longrightarrow> db_inv (snd (delete p incoming db))"
  by (auto simp: delete_def Let_def db_inv_def os_inv_recordChange
      intro: removeFromParent_inv os_inv_delete split: sum.splits)

lemma db_inv_setRevision: "db_inv db \<Longrightarrow> db_inv (snd (setRevision p r db))"
  by (auto simp: setRevision_def Let_def db_inv_def
      intro: addToParent_inv os_inv_put split: sum.splits)

lemma db_inv_setConflict: "db_inv db \<Longrightarrow> db_inv (setConflict p attrs db)"
  by (simp add: setConflict_def Let_def db_inv_def os_inv_recordChange)

lemma db_inv_resolve: "db_inv db \<Longrightarrow> db_inv (snd (snd (resolve p attrs v db)))"
  by (auto simp: resolve_def Let_def db_inv_recordChange split: sum.splits bool.splits)

section \<open>The claims\<close>

text \<open>
  C1, as the code has it. A fulfilled \<open>put\<close> stores the fresh record
  \<open>{path, contentType, body}\<close> in the place of the old node: afterwards the node at the path
  has the new body and content type and no revision, whether or not the old node had one.
\<close>

theorem put_replaces_node:
  assumes "put p b ct incoming db = (Fulfilled [Number 200], db')"
  shows "os_get (nodes db') p =
           Some \<lparr>path = p, contentType = Some ct, body = Some (Payload b), cached = None, revision = None\<rparr>"
proof -
  let ?n = "\<lparr>path = p, contentType = Some ct, body = Some (Payload b), cached = None, revision = None\<rparr>"
  obtain ns where a: "addToParent (os_put ?n (nodes db)) p Body = Inr ns" and n: "nodes db' = ns"
    using assms by (auto simp: put_def Let_def recordChange_def split: if_splits sum.splits)
  have "os_get ns p = os_get (os_put ?n (nodes db)) p"
    using a by (rule addToParent_frame) simp
  then show ?thesis using n by (simp add: os_get_put)
qed

theorem put_replaces_node_witness:
  "put ''x'' ''v2'' ''text/plain'' False db_x_rev =
     (Fulfilled [Number 200], snd (put ''x'' ''v2'' ''text/plain'' False db_x_rev))
   \<and> os_get (nodes (snd (put ''x'' ''v2'' ''text/plain'' False db_x_rev))) ''x'' =
       Some \<lparr>path = ''x'', contentType = Some ''text/plain'', body = Some (Payload ''v2''),
             cached = None, revision = None\<rparr>"
proof -
  have h: "put ''x'' ''v2'' ''text/plain'' False db_x_rev =
     (Fulfilled [Number 200], snd (put ''x'' ''v2'' ''text/plain'' False db_x_rev))"
    by (simp add: db_x_rev_eval eval_defs)
  show ?thesis using h put_replaces_node [OF h] by simp
qed

text \<open>
  C1 as stated fails: the node at \<open>x\<close> holds the revision \<open>r1\<close>, and after a fulfilled
  \<open>put\<close> on \<open>x\<close> it holds none.
\<close>

theorem put_drops_revision_counterexample:
  "map_option revision (os_get (nodes db_x_rev) ''x'') = Some (Some ''r1'')
   \<and> fst (put ''x'' ''v2'' ''text/plain'' False db_x_rev) = Fulfilled [Number 200]
   \<and> map_option revision (os_get (nodes (snd (put ''x'' ''v2'' ''text/plain'' False db_x_rev))) ''x'') = Some None"
  by (simp add: db_x_rev_eval eval_defs)

text \<open>
  C2, as the code has it. The walk treats the root like every other directory. When
  \<open>delete\<close> is fulfilled on a store that holds a node at \<open>/\<close>, that node is removed
  exactly when the root is on the walk from the path and every directory on the walk,
  the root included, has an empty \<open>cached\<close> listing and no entry in its \<open>body\<close> listing
  but the child below it on the walk. In every other case the node at \<open>/\<close> is kept.
\<close>

theorem root_removed_iff:
  assumes "delete p incoming db = (Fulfilled [Number 200], db')"
    and "os_get (nodes db) ''/'' = Some r"
  shows "os_get (nodes db') ''/'' = None \<longleftrightarrow>
           ''/'' \<in> fst ` set (ancestors p)
           \<and> (\<forall>(d, c) \<in> set (ancestors p).
                \<exists>n bs. os_get (nodes db) d = Some n \<and> body n = Some (Listing bs)
                        \<and> bs \<subseteq> {c} \<and> cached n = Some {})"
proof -
  have nf: "\<not> isFolder p" using assms(1) by (rule delete_Fulfilled(1))
  then have "p \<noteq> ''/''" by (auto simp: isFolder_def)
  then have g: "os_get (os_delete p (nodes db)) ''/'' = Some r"
    using assms(2) by (simp add: os_get_delete)
  have w: "removeFromParent (os_delete p (nodes db)) p Body = Inr (nodes db')"
    using assms(1) by (rule delete_Fulfilled(2))
  have same: "emptied (os_delete p (nodes db)) Body dc = emptied (nodes db) Body dc"
    if "dc \<in> set (ancestors p)" for dc
  proof (rule emptied_cong)
    have "(fst dc, snd dc) \<in> set (ancestors p)" using that by simp
    then have "length (fst dc) < length p" by (rule ancestors_shorter)
    then have "fst dc \<noteq> p" by auto
    then show "os_get (os_delete p (nodes db)) (fst dc) = os_get (nodes db) (fst dc)"
      by (simp add: os_get_delete)
  qed
  have "os_get (nodes db') ''/'' = None \<longleftrightarrow>
     ''/'' \<in> fst ` set (ancestors p)
     \<and> (\<forall>dc \<in> set (ancestors p). emptied (os_delete p (nodes db)) Body dc)"
    using removeFromParent_root_iff [OF w g] .
  also have "(\<forall>dc \<in> set (ancestors p). emptied (os_delete p (nodes db)) Body dc)
      \<longleftrightarrow> (\<forall>dc \<in> set (ancestors p). emptied (nodes db) Body dc)"
    using same by simp
  also have "(\<forall>dc \<in> set (ancestors p). emptied (nodes db) Body dc)
      \<longleftrightarrow> (\<forall>(d, c) \<in> set (ancestors p).
                \<exists>n bs. os_get (nodes db) d = Some n \<and> body n = Some (Listing bs)
                        \<and> bs \<subseteq> {c} \<and> cached n = Some {})"
  proof -
    have "emptied (nodes db) Body dc \<longleftrightarrow>
        (\<exists>n bs. os_get (nodes db) (fst dc) = Some n \<and> body n = Some (Listing bs)
                \<and> bs \<subseteq> {snd dc} \<and> cached n = Some {})" for dc
      using emptied_Body [of "nodes db" "fst dc" "snd dc"] by simp
    then show ?thesis by (simp add: split_beta)
  qed
  finally show ?thesis .
qed

theorem root_removed_iff_witness:
  "delete ''/a'' False db_root = (Fulfilled [Number 200], snd (delete ''/a'' False db_root))
   \<and> os_get (nodes db_root) ''/'' =
       Some \<lparr>path = ''/'', contentType = Some ''application/json'', body = Some (Listing {''a''}),
             cached = Some {}, revision = None\<rparr>
   \<and> os_get (nodes (snd (delete ''/a'' False db_root))) ''/'' = None
   \<and> delete ''/a'' False db_two = (Fulfilled [Number 200], snd (delete ''/a'' False db_two))
   \<and> os_get (nodes db_two) ''/'' =
       Some \<lparr>path = ''/'', contentType = Some ''application/json'', body = Some (Listing {''a'', ''b''}),
             cached = Some {}, revision = None\<rparr>
   \<and> os_get (nodes (snd (delete ''/a'' False db_two))) ''/'' =
       Some \<lparr>path = ''/'', contentType = Some ''application/json'', body = Some (Listing {''b''}),
             cached = Some {}, revision = None\<rparr>"
proof -
  have h1: "delete ''/a'' False db_root = (Fulfilled [Number 200], snd (delete ''/a'' False db_root))"
    by (simp add: db_root_eval eval_defs)
  have h2: "os_get (nodes db_root) ''/'' =
       Some \<lparr>path = ''/'', contentType = Some ''application/json'', body = Some (Listing {''a''}),
             cached = Some {}, revision = None\<rparr>"
    by (simp add: db_root_eval)
  have k1: "delete ''/a'' False db_two = (Fulfilled [Number 200], snd (delete ''/a'' False db_two))"
    by (simp add: db_two_eval eval_defs)
  have k2: "os_get (nodes db_two) ''/'' =
       Some \<lparr>path = ''/'', contentType = Some ''application/json'', body = Some (Listing {''a'', ''b''}),
             cached = Some {}, revision = None\<rparr>"
    by (simp add: db_two_eval)
  have k3: "os_get (nodes (snd (delete ''/a'' False db_two))) ''/'' =
       Some \<lparr>path = ''/'', contentType = Some ''application/json'', body = Some (Listing {''b''}),
             cached = Some {}, revision = None\<rparr>"
    by (simp add: db_two_eval eval_defs)
  show ?thesis
    using h1 h2 k1 k2 k3 root_removed_iff [OF h1 h2] root_removed_iff [OF k1 k2]
    by (simp add: ancestors_a)
qed

text \<open>
  C2 as stated fails: with \<open>/a\<close> the only document, \<open>delete\<close> of \<open>/a\<close> is fulfilled and
  the node stored at \<open>/\<close> is gone.
\<close>

theorem root_removed_counterexample:
  "os_get (nodes db_root) ''/'' \<noteq> None
   \<and> fst (delete ''/a'' False db_root) = Fulfilled [Number 200]
   \<and> os_get (nodes (snd (delete ''/a'' False db_root))) ''/'' = None"
  by (simp add: db_root_eval eval_defs)

text \<open>
  C3 at the value \<open>5\<close>. The value is neither a string nor an ArrayBuffer (nor
  \<open>undefined\<close>, for which \<open>set\<close> issues a DELETE by design); \<open>put\<close> passes the error to
  the callback and, having no \<open>return\<close> after it, goes on to \<open>doCall\<close>: the PUT request
  is issued with the value as its data.
\<close>

theorem set_number_still_puts:
  "typeof (Number 5) \<noteq> ''string'' \<and> \<not> instanceofArrayBuffer (Number 5)
   \<and> set_transport ''https://host/x'' (Number 5) (Some ''text/plain'') (Some ''tok'') =
       \<lparr>cb_errors = [''invalid value given to PUT, only strings allowed, got number''],
        requests =
          [\<lparr>url = ''https://host/x'', requestMethod = ''PUT'', timeout = Callback,
            headers = [(''Authorization'', ''Bearer tok''), (''Content-Type'', ''text/plain'')],
            xhrFields = [(''withCredentials'', ''true'')], data = Some (Number 5)\<rparr>]\<rparr>"
  by (simp add: set_transport_def put_transport_def doCall_def)

text \<open>
  C4, as the code has it. A fulfilled \<open>put\<close> emits one change event, and a fulfilled
  \<open>delete\<close> emits one when a node was stored at the path; the origin of the event is
  \<open>remote\<close> when \<open>incoming\<close> is set and \<open>window\<close> otherwise. With \<open>incoming\<close> the
  change log stays as it was; without it the change at the path has the action \<open>PUT\<close>,
  respectively \<open>DELETE\<close>.
\<close>

theorem incoming_flag:
  "(put p b ct incoming db = (Fulfilled [Number 200], db') \<longrightarrow>
      emitted db' = emitted db @
        [ChangeEvent p (if incoming then ''remote'' else ''window'')
           (case os_get (nodes db) p of Some n \<Rightarrow> body n | None \<Rightarrow> None) (Some (Payload b))]
      \<and> (incoming \<longrightarrow> changes db' = changes db)
      \<and> (\<not> incoming \<longrightarrow>
            (\<exists>c. os_get (changes db') p = Some c \<and> map_of (props c) Action = Some (Str ''PUT''))))
   \<and> (delete p incoming db = (Fulfilled [Number 200], db'') \<longrightarrow>
      emitted db'' = emitted db @
        (case os_get (nodes db) p of
           Some n \<Rightarrow> [ChangeEvent p (if incoming then ''remote'' else ''window'') (body n) None]
         | None \<Rightarrow> [])
      \<and> (incoming \<longrightarrow> changes db'' = changes db)
      \<and> (\<not> incoming \<longrightarrow>
            (\<exists>c. os_get (changes db'') p = Some c \<and> map_of (props c) Action = Some (Str ''DELETE''))))"
proof (intro conjI impI)
  assume a: "put p b ct incoming db = (Fulfilled [Number 200], db')"
  show "emitted db' = emitted db @
        [ChangeEvent p (if incoming then ''remote'' else ''window'')
           (case os_get (nodes db) p of Some n \<Rightarrow> body n | None \<Rightarrow> None) (Some (Payload b))]"
    using a by (rule put_Fulfilled(3))
  show "changes db' = changes db" if "incoming"
    using a that by (rule put_Fulfilled(4))
  show "\<exists>c. os_get (changes db') p = Some c \<and> map_of (props c) Action = Some (Str ''PUT'')"
    if "\<not> incoming"
    using put_Fulfilled(5) [OF a that] by (simp add: recordChange_get update_conv')
next
  assume a: "delete p incoming db = (Fulfilled [Number 200], db'')"
  show "emitted db'' = emitted db @
        (case os_get (nodes db) p of
           Some n \<Rightarrow> [ChangeEvent p (if incoming then ''remote'' else ''window'') (body n) None]
         | None \<Rightarrow> [])"
    using a by (rule delete_Fulfilled(3))
  show "changes db'' = changes db" if "incoming"
    using a that by (rule delete_Fulfilled(4))
  show "\<exists>c. os_get (changes db'') p = Some c \<and> map_of (props c) Action = Some (Str ''DELETE'')"
    if "\<not> incoming"
    using delete_Fulfilled(5) [OF a that] by (simp add: recordChange_get update_conv')
qed

theorem incoming_flag_witness:
  "put ''x'' ''v2'' ''text/plain'' True db_x_rev =
     (Fulfilled [Number 200], snd (put ''x'' ''v2'' ''text/plain'' True db_x_rev))
   \<and> emitted (snd (put ''x'' ''v2'' ''text/plain'' True db_x_rev)) =
       emitted db_x_rev @ [ChangeEvent ''x'' ''remote'' (Some (Payload ''v1'')) (Some (Payload ''v2''))]
   \<and> changes (snd (put ''x'' ''v2'' ''text/plain'' True db_x_rev)) = changes db_x_rev
   \<and> delete ''x'' False db_x_rev = (Fulfilled [Number 200], snd (delete ''x'' False db_x_rev))
   \<and> emitted (snd (delete ''x'' False db_x_rev)) =
       emitted db_x_rev @ [ChangeEvent ''x'' ''window'' (Some (Payload ''v1'')) None]
   \<and> os_get (changes (snd (delete ''x'' False db_x_rev))) ''x'' =
       Some \<lparr>path = ''x'', props = [(Action, Str ''DELETE'')]\<rparr>"
proof -
  have h1: "put ''x'' ''v2'' ''text/plain'' True db_x_rev =
     (Fulfilled [Number 200], snd (put ''x'' ''v2'' ''text/plain'' True db_x_rev))"
    by (simp add: db_x_rev_eval eval_defs)
  have h2: "delete ''x'' False db_x_rev = (Fulfilled [Number 200], snd (delete ''x'' False db_x_rev))"
    by (simp add: db_x_rev_eval eval_defs)
  have g: "os_get (nodes db_x_rev) ''x'' =
      Some \<lparr>path = ''x'', contentType = Some ''text/plain'', body = Some (Payload ''v1''),
                cached = None, revision = Some ''r1''\<rparr>"
    by (simp add: db_x_rev_eval)
  have c: "os_get (changes (snd (delete ''x'' False db_x_rev))) ''x'' =
       Some \<lparr>path = ''x'', props = [(Action, Str ''DELETE'')]\<rparr>"
    by (simp add: db_x_rev_eval eval_defs)
  show ?thesis
    using h1 h2 c
      incoming_flag [of "''x''" "''v2''" "''text/plain''" True db_x_rev
        "snd (put ''x'' ''v2'' ''text/plain'' True db_x_rev)" "snd (delete ''x'' True db_x_rev)"]
      incoming_flag [of "''x''" "''v2''" "''text/plain''" False db_x_rev
        "snd (put ''x'' ''v2'' ''text/plain'' False db_x_rev)" "snd (delete ''x'' False db_x_rev)"]
    by (simp add: g)
qed

text \<open>
  C4 as stated fails: a local \<open>put\<close> emits an event whose origin is \<open>window\<close>, which is
  not \<open>local\<close>.
\<close>

theorem origin_local_counterexample:
  "put ''x'' ''v1'' ''text/plain'' False empty_db =
     (Fulfilled [Number 200],
      \<lparr>nodes = [\<lparr>path = ''x'', contentType = Some ''text/plain'', body = Some (Payload ''v1''),
                 cached = None, revision = None\<rparr>],
       changes = [\<lparr>path = ''x'', props = [(Action, Str ''PUT'')]\<rparr>],
       emitted = [ChangeEvent ''x'' ''window'' None (Some (Payload ''v1''))],
       transactions = 2\<rparr>)
   \<and> ''window'' \<noteq> ''local''"
  by (simp add: eval_defs)

text \<open>
  C5. For every path that ends in a slash, \<open>put\<close> and \<open>delete\<close> throw before
  \<open>db.transaction\<close> is called: the state, with both stores, the emitted events and the
  number of transactions opened, is the one before the call.
\<close>

theorem put_delete_folder_throws:
  assumes "isFolder p"
  shows "put p b ct incoming db = (Thrown BadPutFolders, db)
       \<and> delete p incoming db = (Thrown BadDeleteFolders, db)"
  using assms by (simp add: put_def delete_def)

theorem put_delete_folder_throws_witness:
  "isFolder ''a/b/''
   \<and> put ''a/b/'' ''hello'' ''text/plain'' False db_abc = (Thrown BadPutFolders, db_abc)
   \<and> delete ''a/b/'' False db_abc = (Thrown BadDeleteFolders, db_abc)"
proof -
  have h: "isFolder ''a/b/''" by (simp add: isFolder_def)
  show ?thesis using h put_delete_folder_throws [OF h, of "''hello''" "''text/plain''" False db_abc] by simp
qed

text \<open>
  C6. For every prefix \<open>p\<close> and every store of change records (sorted by key, one
  record per key, as an object store is), \<open>changesBelow p\<close> returns exactly the records
  whose key starts with \<open>p\<close>, each once, in ascending key order.
\<close>

theorem changesBelow_prefix:
  assumes "os_inv (changes db)"
  shows "changesBelow p db = filter (\<lambda>c. prefix p (path c)) (changes db)
       \<and> sorted_wrt (<) (map path (changesBelow p db))"
proof -
  have e: "changesBelow p db = filter (\<lambda>c. prefix p (path c)) (changes db)"
    unfolding changesBelow_def
    using cursor_loop_filter [OF cursor_from_inv [OF assms] cursor_from_low [OF assms], of p]
      cursor_from_filter [OF assms, of p] by simp
  have "sorted_wrt (<) (map path (filter (\<lambda>c. prefix p (path c)) (changes db)))"
    using assms unfolding os_inv_def by (simp add: sorted_wrt_map sorted_wrt_filter)
  then show ?thesis using e by simp
qed

text \<open>
  With changes recorded for \<open>a/x\<close>, \<open>a/y/z\<close> and \<open>b/w\<close>, the scan below \<open>a/\<close> returns
  the records of \<open>a/x\<close> and \<open>a/y/z\<close>.
\<close>

theorem changesBelow_prefix_witness:
  "os_inv (changes db_changes)
   \<and> changesBelow ''a/'' db_changes =
       [\<lparr>path = ''a/x'', props = [(Action, Str ''PUT'')]\<rparr>,
        \<lparr>path = ''a/y/z'', props = [(Action, Str ''DELETE'')]\<rparr>]
   \<and> filter (\<lambda>c. prefix ''a/'' (path c)) (changes db_changes) =
       [\<lparr>path = ''a/x'', props = [(Action, Str ''PUT'')]\<rparr>,
        \<lparr>path = ''a/y/z'', props = [(Action, Str ''DELETE'')]\<rparr>]"
proof -
  have c: "changes db_changes =
       [\<lparr>path = ''a/x'', props = [(Action, Str ''PUT'')]\<rparr>,
        \<lparr>path = ''a/y/z'', props = [(Action, Str ''DELETE'')]\<rparr>,
        \<lparr>path = ''b/w'', props = [(Action, Str ''PUT'')]\<rparr>]"
    by (simp add: db_changes_def recordChange_def empty_db_def)
  have h: "os_inv (changes db_changes)"
    by (simp add: c os_inv_def)
  show ?thesis
    using h changesBelow_prefix [OF h, of "''a/''"] by (simp add: c)
qed

text \<open>
  C7 at the path \<open>a/__proto__\<close> of the empty database. The \<open>put\<close> is fulfilled and
  creates the directory \<open>a/\<close>, but \<open>node.body['__proto__'] = true\<close> creates no property:
  the \<open>body\<close> listing of \<open>a/\<close> is empty and does not hold the child.
\<close>

theorem put_proto_child_not_listed:
  "put ''a/__proto__'' ''hello'' ''text/plain'' False empty_db =
     (Fulfilled [Number 200],
      \<lparr>nodes =
         [\<lparr>path = ''a/'', contentType = Some ''application/json'', body = Some (Listing {}),
            cached = Some {}, revision = None\<rparr>,
          \<lparr>path = ''a/__proto__'', contentType = Some ''text/plain'', body = Some (Payload ''hello''),
            cached = None, revision = None\<rparr>],
       changes = [\<lparr>path = ''a/__proto__'', props = [(Action, Str ''PUT'')]\<rparr>],
       emitted = [ChangeEvent ''a/__proto__'' ''window'' None (Some (Payload ''hello''))],
       transactions = 2\<rparr>)
   \<and> ancestors ''a/__proto__'' = [(''a/'', ''__proto__'')]"
  by (simp add: eval_defs ancestors.simps)

text \<open>
  C8. For every path and attribute objects \<open>a1\<close> and \<open>a2\<close> (an object has each property
  name once), \<open>_recordChange\<close> with \<open>a1\<close> and then with \<open>a2\<close> leaves exactly one change
  record at the path; a field named in \<open>a2\<close> has the value of \<open>a2\<close>, a field named only
  in \<open>a1\<close> has the value of \<open>a1\<close>, and any other field is as it was stored before.
\<close>

theorem recordChange_merge:
  assumes "os_inv (changes db)" and "distinct (map fst a1)" and "distinct (map fst a2)"
  shows "\<exists>c. filter (\<lambda>x. path x = p) (changes (recordChange p a2 (recordChange p a1 db))) = [c]
           \<and> (\<forall>f. map_of (props c) f =
                 (case map_of a2 f of
                    Some v \<Rightarrow> Some v
                  | None \<Rightarrow>
                      (case map_of a1 f of
                         Some v \<Rightarrow> Some v
                       | None \<Rightarrow>
                           (case os_get (changes db) p of
                              Some c0 \<Rightarrow> map_of (props c0) f
                            | None \<Rightarrow> None))))"
proof -
  define ps0 where "ps0 = (case os_get (changes db) p of Some c0 \<Rightarrow> props c0 | None \<Rightarrow> [])"
  define c where "c = \<lparr>path = p, props = fold (\<lambda>(k, v). AList.update k v) a2
                          (fold (\<lambda>(k, v). AList.update k v) a1 ps0)\<rparr>"
  have g: "os_get (changes (recordChange p a2 (recordChange p a1 db))) p = Some c"
    by (simp add: recordChange_get c_def ps0_def)
  have "os_inv (changes (recordChange p a2 (recordChange p a1 db)))"
    using assms(1) by (simp add: os_inv_recordChange)
  then have one: "filter (\<lambda>x. path x = p) (changes (recordChange p a2 (recordChange p a1 db))) = [c]"
    using g by (rule os_inv_filter_key)
  have "map_of (props c) = map_of ps0 ++ map_of a1 ++ map_of a2"
    using assms(2,3) by (simp add: c_def map_of_fold_update)
  then have "map_of (props c) f =
                 (case map_of a2 f of
                    Some v \<Rightarrow> Some v
                  | None \<Rightarrow>
                      (case map_of a1 f of
                         Some v \<Rightarrow> Some v
                       | None \<Rightarrow>
                           (case os_get (changes db) p of
                              Some c0 \<Rightarrow> map_of (props c0) f
                            | None \<Rightarrow> None)))" for f
    by (simp add: map_add_def ps0_def split: option.splits)
  then show ?thesis using one by blast
qed

text \<open>
  Recording \<open>{action: 'PUT'}\<close> and then \<open>{action: 'DELETE'}\<close> leaves the single change
  with the action \<open>DELETE\<close>.
\<close>

theorem recordChange_merge_witness:
  "os_inv (changes (empty_db :: string db))
   \<and> distinct (map fst [(Action, Str ''PUT'')])
   \<and> distinct (map fst [(Action, Str ''DELETE'')])
   \<and> changes (recordChange ''a/x'' [(Action, Str ''DELETE'')]
                (recordChange ''a/x'' [(Action, Str ''PUT'')] (empty_db :: string db))) =
       [\<lparr>path = ''a/x'', props = [(Action, Str ''DELETE'')]\<rparr>]"
proof -
  have h1: "os_inv (changes (empty_db :: string db))" by (simp add: empty_db_def os_inv_def)
  have h2: "distinct (map fst [(Action, Str ''PUT'')])" by simp
  have h3: "distinct (map fst [(Action, Str ''DELETE'')])" by simp
  have e: "changes (recordChange ''a/x'' [(Action, Str ''DELETE'')]
                (recordChange ''a/x'' [(Action, Str ''PUT'')] (empty_db :: string db))) =
       [\<lparr>path = ''a/x'', props = [(Action, Str ''DELETE'')]\<rparr>]"
    by (simp add: recordChange_def empty_db_def)
  show ?thesis using h1 h2 h3 e recordChange_merge [OF h1 h2 h3, of "''a/x''"] by simp
qed




text \<open>
  C10 at the path \<open>a/b\<close> of the empty database. No node is stored at the path and none
  at its parent \<open>a/\<close>; the handler of \<open>nodes.get('a/')\<close> in \<open>removeFromParent\<close> reads
  \<open>node[key]\<close> of \<open>undefined\<close>, the transaction is aborted, the promise is rejected and no
  change is recorded.
\<close>

theorem delete_absent_rejected:
  "os_get (nodes (empty_db :: string db)) ''a/b'' = None
   \<and> delete ''a/b'' False (empty_db :: string db) =
       (Rejected TypeError, \<lparr>nodes = [], changes = [], emitted = [], transactions = 1\<rparr>)"
  by (simp add: eval_defs)

end
